theory Spec2Isabelle
  imports Main "HOL-Library.AList"
begin

section \<open>The Slack question engine of \<^verbatim>\<open>src/slack-client.ts\<close>\<close>

text \<open>
  The class \<^verbatim>\<open>HumanInSlack\<close> posts a question to a Slack channel and waits for a threaded
  reply of one user. It is asynchronous TypeScript: every function runs to completion up to
  its next \<^verbatim>\<open>await\<close>, and inbound events, timer callbacks and the continuations of
  suspended calls are separate steps on the shared object. The embedding has one HOL function
  for each such step, translated from the source lines named beside it; the object, the
  promises created by \<^verbatim>\<open>ask\<close> and the messages handed to \<^verbatim>\<open>chat.postMessage\<close> form
  one record that every step takes and returns.
\<close>

subsection \<open>Data (\<^verbatim>\<open>src/types.ts\<close>)\<close>

text \<open>
  An optional field \<^verbatim>\<open>f?: string\<close> is a \<open>string option\<close>, \<open>None\<close> for
  \<^verbatim>\<open>undefined\<close>. The fields of the event and of the log entry carry a prefix, since three
  interfaces share the names \<^verbatim>\<open>channel\<close>, \<^verbatim>\<open>user\<close> and \<^verbatim>\<open>text\<close>.
\<close>

record PendingResponse =
  channel :: string
  user :: string
  threadTs :: string
  response :: "string option"
  received :: bool

record MessageLogEntry =
  log_timestamp :: nat
  log_channel :: "string option"
  log_user :: "string option"
  log_text :: string
  log_threadTs :: "string option"
  log_botId :: "string option"

record SlackMessageEvent =
  ev_type :: string
  ev_channel :: "string option"
  ev_user :: "string option"
  ev_text :: "string option"
  ev_ts :: "string option"
  ev_thread_ts :: "string option"
  ev_bot_id :: "string option"
  ev_subtype :: "string option"

record SlackHandler =
  isReady :: bool

text \<open>
  The three ways \<^verbatim>\<open>ask\<close> throws: \<^verbatim>\<open>Error('Slack connection is not ready')\<close>, the
  failure of \<^verbatim>\<open>chat.postMessage\<close> (a result that is not \<^verbatim>\<open>ok\<close>, or an exception of the
  call itself) and \<^verbatim>\<open>Error('Timeout waiting for human response in Slack')\<close>.
\<close>

datatype error = NotReady | SendFailed string | Timeout

text \<open>
  A JavaScript promise is settled at most once: \<^verbatim>\<open>resolve\<close> and \<^verbatim>\<open>reject\<close> do nothing
  on a promise that is no longer pending.
\<close>

datatype promise = Pending | Fulfilled string | Rejected error

definition settle :: "nat \<Rightarrow> promise \<Rightarrow> promise list \<Rightarrow> promise list" where
  "settle p v ps = (if p < length ps \<and> ps ! p = Pending then ps[p := v] else ps)"

text \<open>What \<^verbatim>\<open>await chat.postMessage(...)\<close> yields: \<^verbatim>\<open>{ok: true, ts}\<close>,
  \<^verbatim>\<open>{ok: false, error}\<close>, or an exception.\<close>

datatype post_result = PostOk string | PostNotOk string | PostThrew string

text \<open>
  The object. \<^verbatim>\<open>pendingResponses\<close> is a JavaScript \<^verbatim>\<open>Map\<close>, which iterates in
  insertion order: an association list, with \<open>AList.update\<close> for \<^verbatim>\<open>set\<close> (a present key
  keeps its place, a new key goes last) and \<open>AList.delete\<close> for \<^verbatim>\<open>delete\<close>.
  \<^verbatim>\<open>responseResolvers\<close> is only read by key: a map from the question identifier to the
  promise that the stored \<^verbatim>\<open>resolve\<close> function settles. \<open>promises\<close> holds the promises
  made by \<^verbatim>\<open>ask\<close>, in order of creation; \<open>posted\<close> the calls of
  \<^verbatim>\<open>chat.postMessage\<close> (channel, text) issued so far.
\<close>

record HumanInSlack =
  handler :: "SlackHandler option"
  userId :: string
  channelId :: string
  pendingResponses :: "(string \<times> PendingResponse) list"
  responseResolvers :: "string \<rightharpoonup> nat"
  messageLog :: "MessageLogEntry list"
  eventCount :: nat
  promises :: "promise list"
  posted :: "(string \<times> string) list"

definition new_HumanInSlack :: "string \<Rightarrow> string \<Rightarrow> HumanInSlack" where
  "new_HumanInSlack uid cid =
     \<lparr>handler = None, userId = uid, channelId = cid, pendingResponses = [],
      responseResolvers = Map.empty, messageLog = [], eventCount = 0,
      promises = [], posted = []\<rparr>"

definition setHandler :: "SlackHandler \<Rightarrow> HumanInSlack \<Rightarrow> HumanInSlack" where
  "setHandler h w = w\<lparr>handler := Some h\<rparr>"

subsection \<open>Strings\<close>

text \<open>The decimal rendering of \<^verbatim>\<open>Date.now()\<close> inside the template literal
  \<^verbatim>\<open>`q_${Date.now()}`\<close>.\<close>

definition digit :: "nat \<Rightarrow> char" where
  "digit d = ''0123456789'' ! d"

fun string_of_nat :: "nat \<Rightarrow> string" where
  "string_of_nat n =
     (if n < 10 then [digit n]
      else string_of_nat (n div 10) @ [digit (n mod 10)])"

text \<open>\<^verbatim>\<open>!x\<close> on an optional string: \<^verbatim>\<open>undefined\<close> and the empty string are falsy.\<close>

definition truthy :: "string option \<Rightarrow> bool" where
  "truthy s = (case s of None \<Rightarrow> False | Some t \<Rightarrow> t \<noteq> [])"

text \<open>\<^verbatim>\<open>event.text || ''\<close>\<close>

definition text_or_empty :: "string option \<Rightarrow> string" where
  "text_or_empty s = (case s of None \<Rightarrow> [] | Some t \<Rightarrow> t)"

subsection \<open>The dispatcher: \<^verbatim>\<open>handleSocketModeRequest\<close> (lines 195-260)\<close>

text \<open>
  The loop of lines 233-258 over \<^verbatim>\<open>pendingResponses.entries()\<close>. The comparisons are
  \<^verbatim>\<open>===\<close> between an optional field of the event and a string of the record, so an absent
  field equals nothing. At the first record that agrees on channel, user and thread the loop
  writes \<^verbatim>\<open>response\<close> and \<^verbatim>\<open>received\<close>, calls and removes the resolver stored under the
  record's key, if there is one, and breaks.
\<close>

fun scanPending ::
  "string option \<Rightarrow> string option \<Rightarrow> string \<Rightarrow> string option \<Rightarrow>
   (string \<times> PendingResponse) list \<Rightarrow> (string \<rightharpoonup> nat) \<Rightarrow> promise list \<Rightarrow>
   (string \<times> PendingResponse) list \<times> (string \<rightharpoonup> nat) \<times> promise list" where
  "scanPending c u t th [] rs ps = ([], rs, ps)"
| "scanPending c u t th ((questionId, questionData) # rest) rs ps =
     (if c = Some (channel questionData) \<and> u = Some (user questionData) then
        (if th = Some (threadTs questionData) then
           (let questionData' = questionData\<lparr>response := Some t, received := True\<rparr> in
            (case rs questionId of
               Some resolver \<Rightarrow>
                 ((questionId, questionData') # rest, rs(questionId := None),
                  settle resolver (Fulfilled t) ps)
             | None \<Rightarrow> ((questionId, questionData') # rest, rs, ps)))
         else
           (case scanPending c u t th rest rs ps of
              (rest', rs', ps') \<Rightarrow> ((questionId, questionData) # rest', rs', ps')))
      else
        (case scanPending c u t th rest rs ps of
           (rest', rs', ps') \<Rightarrow> ((questionId, questionData) # rest', rs', ps')))"

text \<open>Lines 203-218: the log entry, \<^verbatim>\<open>push\<close>, and \<^verbatim>\<open>shift\<close> when the length
  exceeds 50. The source stores \<^verbatim>\<open>Date.now() / 1000\<close>; the model keeps the reading of the
  clock in milliseconds, which nothing reads back.\<close>

definition logMessage :: "nat \<Rightarrow> SlackMessageEvent \<Rightarrow> MessageLogEntry list \<Rightarrow> MessageLogEntry list" where
  "logMessage now event msgs =
     (let messageInfo = \<lparr>log_timestamp = now, log_channel = ev_channel event,
                          log_user = ev_user event,
                          log_text = take 50 (text_or_empty (ev_text event)),
                          log_threadTs = ev_thread_ts event, log_botId = ev_bot_id event\<rparr>;
          pushed = msgs @ [messageInfo]
      in if length pushed > 50 then tl pushed else pushed)"

definition handleSocketModeRequest :: "nat \<Rightarrow> SlackMessageEvent \<Rightarrow> HumanInSlack \<Rightarrow> HumanInSlack" where
  "handleSocketModeRequest now event w =
     (let w1 = w\<lparr>eventCount := eventCount w + 1\<rparr>;
          w2 = (if ev_type event = ''message''
                then w1\<lparr>messageLog := logMessage now event (messageLog w1)\<rparr> else w1)
      in if ev_type event = ''message'' \<and> \<not> truthy (ev_bot_id event) then
           (case scanPending (ev_channel event) (ev_user event) (text_or_empty (ev_text event))
                   (ev_thread_ts event) (pendingResponses w2) (responseResolvers w2) (promises w2) of
              (entries, rs, ps) \<Rightarrow>
                w2\<lparr>pendingResponses := entries, responseResolvers := rs, promises := ps\<rparr>)
         else w2)"

subsection \<open>The question engine: \<^verbatim>\<open>ask\<close> (lines 262-342)\<close>

text \<open>
  \<^verbatim>\<open>ask\<close> suspends twice: at \<^verbatim>\<open>await chat.postMessage\<close> (line 278) and at
  \<^verbatim>\<open>await responsePromise\<close> (line 320). \<open>ask_begin\<close> is the code up to the first
  suspension: the readiness check, the identifier, and the call of \<^verbatim>\<open>postMessage\<close>.
  \<open>ready\<close> is the negation of the guard \<^verbatim>\<open>!this.handler || !this.handler.isReady\<close>.
\<close>

definition ready :: "HumanInSlack \<Rightarrow> bool" where
  "ready w = (case handler w of None \<Rightarrow> False | Some h \<Rightarrow> isReady h)"

definition ask_begin :: "nat \<Rightarrow> string \<Rightarrow> HumanInSlack \<Rightarrow> (error + string) \<times> HumanInSlack" where
  "ask_begin now question w =
     (if \<not> ready w then (Inl NotReady, w)
      else
        (let questionId = ''q_'' @ string_of_nat now;
             messageText = ''<@'' @ userId w @ ''> '' @ question
         in (Inr questionId, w\<lparr>posted := posted w @ [(channelId w, messageText)]\<rparr>)))"

text \<open>
  \<open>ask_sent\<close> is the code between the two suspensions (lines 282-318): on a failed send
  the outer \<^verbatim>\<open>catch\<close> (lines 337-341) deletes the key and rethrows; otherwise the record is
  stored, the promise created and its resolver registered. The result is the new promise,
  on which the call then waits. \<^verbatim>\<open>result.ts!\<close> is taken to be a string, as
  \<^verbatim>\<open>PendingResponse.threadTs\<close> declares.
\<close>

definition ask_sent :: "string \<Rightarrow> post_result \<Rightarrow> HumanInSlack \<Rightarrow> (error + nat) \<times> HumanInSlack" where
  "ask_sent questionId result w =
     (case result of
        PostThrew msg \<Rightarrow>
          (Inl (SendFailed msg), w\<lparr>pendingResponses := AList.delete questionId (pendingResponses w)\<rparr>)
      | PostNotOk err \<Rightarrow>
          (Inl (SendFailed (''Failed to send message: '' @ err)),
           w\<lparr>pendingResponses := AList.delete questionId (pendingResponses w)\<rparr>)
      | PostOk ts \<Rightarrow>
          (let pendingResponse = \<lparr>channel = channelId w, user = userId w, threadTs = ts,
                                   response = None, received = False\<rparr>;
               responsePromise = length (promises w)
           in (Inr responsePromise,
               w\<lparr>pendingResponses := AList.update questionId pendingResponse (pendingResponses w),
                 promises := promises w @ [Pending],
                 responseResolvers := (responseResolvers w)(questionId \<mapsto> responsePromise)\<rparr>)))"

text \<open>The callback given to \<^verbatim>\<open>setTimeout(..., 60000)\<close> (lines 312-317), for the call
  with this identifier and promise.\<close>

definition timeout_callback :: "string \<Rightarrow> nat \<Rightarrow> HumanInSlack \<Rightarrow> HumanInSlack" where
  "timeout_callback questionId responsePromise w =
     (if responseResolvers w questionId \<noteq> None
      then w\<lparr>responseResolvers := (responseResolvers w)(questionId := None),
             promises := settle responsePromise (Rejected Timeout) (promises w)\<rparr>
      else w)"

text \<open>
  \<open>ask_resume\<close> is the code after \<^verbatim>\<open>await responsePromise\<close> (lines 320-341). On a
  fulfilled promise the record is deleted and the text returned; on a rejected one the inner
  \<^verbatim>\<open>catch\<close> deletes record and resolver, the outer one deletes the record again, and the
  error is thrown. While the promise is pending the call stays suspended: the result
  \<open>None\<close>.
\<close>

definition ask_resume :: "string \<Rightarrow> nat \<Rightarrow> HumanInSlack \<Rightarrow> (error + string) option \<times> HumanInSlack" where
  "ask_resume questionId responsePromise w =
     (if responsePromise < length (promises w) then
        (case promises w ! responsePromise of
           Pending \<Rightarrow> (None, w)
         | Fulfilled answer \<Rightarrow>
             (Some (Inr answer),
              w\<lparr>pendingResponses := AList.delete questionId (pendingResponses w)\<rparr>)
         | Rejected e \<Rightarrow>
             (Some (Inl e),
              w\<lparr>pendingResponses :=
                   AList.delete questionId (AList.delete questionId (pendingResponses w)),
                responseResolvers := (responseResolvers w)(questionId := None)\<rparr>))
      else (None, w))"

text \<open>
  The timer callback runs as a task of its own; the rejection it makes queues the
  continuation of the suspended \<^verbatim>\<open>ask\<close> as the only job of the microtask queue, so the
  clean-up of the \<^verbatim>\<open>catch\<close> blocks runs before any other event is handled.
\<close>

definition ask_timeout :: "string \<Rightarrow> nat \<Rightarrow> HumanInSlack \<Rightarrow> (error + string) option \<times> HumanInSlack" where
  "ask_timeout questionId responsePromise w =
     ask_resume questionId responsePromise (timeout_callback questionId responsePromise w)"

subsection \<open>Runs\<close>

text \<open>
  Everything that can happen to the object: a handler being set or changing its readiness
  (\<^verbatim>\<open>setHandler\<close>, and the assignments to \<^verbatim>\<open>isReady\<close> in \<^verbatim>\<open>SlackHandler\<close> and
  \<^verbatim>\<open>index.ts\<close>), an inbound event, a call of \<^verbatim>\<open>ask\<close> reaching its first suspension,
  a send returning, a timer firing, a suspended call resuming. The identifier and promise of
  a step are not tied to a call, so the runs of the program are among the runs of
  \<open>run\<close>.
\<close>

datatype action =
    SetHandler SlackHandler
  | Event nat SlackMessageEvent
  | AskBegin nat string
  | AskSent string post_result
  | TimerFired string nat
  | AskResume string nat

fun step :: "HumanInSlack \<Rightarrow> action \<Rightarrow> HumanInSlack" where
  "step w (SetHandler h) = setHandler h w"
| "step w (Event now e) = handleSocketModeRequest now e w"
| "step w (AskBegin now question) = snd (ask_begin now question w)"
| "step w (AskSent questionId result) = snd (ask_sent questionId result w)"
| "step w (TimerFired questionId p) = timeout_callback questionId p w"
| "step w (AskResume questionId p) = snd (ask_resume questionId p w)"

definition run :: "action list \<Rightarrow> HumanInSlack \<Rightarrow> HumanInSlack" where
  "run as w = foldl step w as"

subsection \<open>\<^verbatim>\<open>getMessageLog\<close> (lines 344-346)\<close>

text \<open>
  A JavaScript array is a mutable object, and whether the caller of \<^verbatim>\<open>getMessageLog\<close> can
  change the log depends on which object is returned. The arrays of the heap are listed by
  address; \<^verbatim>\<open>[...xs]\<close> allocates a new array with the elements of \<^verbatim>\<open>xs\<close>, and any
  operation on an array (\<^verbatim>\<open>push\<close>, \<^verbatim>\<open>pop\<close>, an assignment to an index or to
  \<^verbatim>\<open>length\<close>) replaces the elements stored at its address. \<open>this_messageLog\<close> is
  the address of the array that the field \<^verbatim>\<open>messageLog\<close> refers to; its elements are what
  the record above holds in \<open>messageLog\<close>.
\<close>

type_synonym arrays = "MessageLogEntry list list"

definition spread :: "nat \<Rightarrow> arrays \<Rightarrow> nat \<times> arrays" where
  "spread a h = (length h, h @ [h ! a])"

definition getMessageLog :: "nat \<Rightarrow> arrays \<Rightarrow> nat \<times> arrays" where
  "getMessageLog this_messageLog h = spread this_messageLog h"

definition mutate :: "nat \<Rightarrow> (MessageLogEntry list \<Rightarrow> MessageLogEntry list) \<Rightarrow> arrays \<Rightarrow> arrays" where
  "mutate r f h = (if r < length h then h[r := f (h ! r)] else h)"

subsection \<open>Notions used in the statements\<close>

text \<open>A record agrees with an event when the three comparisons of lines 237 and 239 hold.\<close>

definition agrees :: "SlackMessageEvent \<Rightarrow> PendingResponse \<Rightarrow> bool" where
  "agrees e q \<longleftrightarrow>
     ev_channel e = Some (channel q) \<and> ev_user e = Some (user q) \<and>
     ev_thread_ts e = Some (threadTs q)"

text \<open>Two records carry the same correlation key when they were posted to the same channel
  for the same user and hold the same message identifier.\<close>

definition same_key :: "PendingResponse \<Rightarrow> PendingResponse \<Rightarrow> bool" where
  "same_key q q' \<longleftrightarrow> channel q' = channel q \<and> user q' = user q \<and> threadTs q' = threadTs q"

text \<open>
  What every run keeps: a \<^verbatim>\<open>Map\<close> holds each key once, the resolvers stored under two
  keys belong to two promises (each is the \<^verbatim>\<open>resolve\<close> of the promise made in the same
  step), and every stored resolver belongs to a promise that exists.
\<close>

definition well_formed :: "HumanInSlack \<Rightarrow> bool" where
  "well_formed w \<longleftrightarrow>
     distinct (map fst (pendingResponses w)) \<and>
     (\<forall>k k' p. responseResolvers w k = Some p \<and> responseResolvers w k' = Some p \<longrightarrow> k = k') \<and>
     (\<forall>k p. responseResolvers w k = Some p \<longrightarrow> p < length (promises w))"

text \<open>The events that line 220 excludes, beside those that are no messages: the ones with
  a \<^verbatim>\<open>bot_id\<close>.\<close>

definition isSelfOriginated :: "SlackMessageEvent \<Rightarrow> bool" where
  "isSelfOriginated e = truthy (ev_bot_id e)"

text \<open>The handling of a sequence of events, each with the reading of the clock.\<close>

definition events :: "(nat \<times> SlackMessageEvent) list \<Rightarrow> action list" where
  "events es = map (\<lambda>(now, e). Event now e) es"

subsection \<open>Example values\<close>

definition example_human :: HumanInSlack where
  "example_human = setHandler \<lparr>isReady = True\<rparr> (new_HumanInSlack ''U1'' ''C1'')"

definition example_reply :: "string \<Rightarrow> string option \<Rightarrow> SlackMessageEvent" where
  "example_reply th t =
     \<lparr>ev_type = ''message'', ev_channel = Some ''C1'', ev_user = Some ''U1'', ev_text = t,
      ev_ts = None, ev_thread_ts = Some th, ev_bot_id = None, ev_subtype = None\<rparr>"

text \<open>The object after \<^verbatim>\<open>ask\<close> has posted a question at time 1000, the send has returned
  the message \<^verbatim>\<open>T1\<close>, and the call waits on promise 0.\<close>

definition example_waiting :: HumanInSlack where
  "example_waiting =
     snd (ask_sent ''q_1000'' (PostOk ''T1'') (snd (ask_begin 1000 ''What is the API key?'' example_human)))"

text \<open>The object after a second question has been posted at time 2000 and the send has
  returned the message \<^verbatim>\<open>T2\<close>: two calls wait, on the promises 0 and 1.\<close>

definition example_two_waiting :: HumanInSlack where
  "example_two_waiting =
     snd (ask_sent ''q_2000'' (PostOk ''T2'')
            (snd (ask_begin 2000 ''Which region?'' example_waiting)))"

text \<open>The object after a first reply in the thread has been handled, and after a second
  one has been handled before the call resumed.\<close>

definition example_resolved :: HumanInSlack where
  "example_resolved =
     handleSocketModeRequest 2000 (example_reply ''T1'' (Some ''first'')) example_waiting"

definition example_resolved_twice :: HumanInSlack where
  "example_resolved_twice =
     handleSocketModeRequest 2001 (example_reply ''T1'' (Some ''second'')) example_resolved"

text \<open>The same reply, sent by a bot; and sent to the channel, outside any thread.\<close>

definition example_bot_reply :: SlackMessageEvent where
  "example_bot_reply = (example_reply ''T1'' (Some ''it is abc123''))\<lparr>ev_bot_id := Some ''B1''\<rparr>"

definition example_top_level :: SlackMessageEvent where
  "example_top_level = (example_reply ''T1'' (Some ''it is abc123''))\<lparr>ev_thread_ts := None\<rparr>"

text \<open>
  A reply that is handled while the send is still in flight: the question is posted at time
  1000, the reply in its thread is handled at 1500, and only then does \<^verbatim>\<open>postMessage\<close>
  return the message \<^verbatim>\<open>T1\<close>.
\<close>

definition race_sending :: HumanInSlack where
  "race_sending = snd (ask_begin 1000 ''What is the API key?'' example_human)"

definition race_reply_handled :: HumanInSlack where
  "race_reply_handled =
     handleSocketModeRequest 1500 (example_reply ''T1'' (Some ''it is abc123'')) race_sending"

definition race_waiting :: HumanInSlack where
  "race_waiting = snd (ask_sent ''q_1000'' (PostOk ''T1'') race_reply_handled)"

text \<open>
  Two calls of \<^verbatim>\<open>ask\<close> within one millisecond, and no reply: both post, the sends return
  the messages \<^verbatim>\<open>T1\<close> and \<^verbatim>\<open>T2\<close>, the calls wait on the promises 0 and 1, and the
  timer of the first call fires.
\<close>

definition collide_first_sending :: HumanInSlack where
  "collide_first_sending = snd (ask_begin 1700000000000 ''first?'' example_human)"

definition collide_both_sending :: HumanInSlack where
  "collide_both_sending = snd (ask_begin 1700000000000 ''second?'' collide_first_sending)"

definition collide_first_waiting :: HumanInSlack where
  "collide_first_waiting = snd (ask_sent ''q_1700000000000'' (PostOk ''T1'') collide_both_sending)"

definition collide_both_waiting :: HumanInSlack where
  "collide_both_waiting = snd (ask_sent ''q_1700000000000'' (PostOk ''T2'') collide_first_waiting)"

definition collide_first_timed_out :: HumanInSlack where
  "collide_first_timed_out = snd (ask_timeout ''q_1700000000000'' 0 collide_both_waiting)"

definition example_entry :: MessageLogEntry where
  "example_entry = \<lparr>log_timestamp = 1, log_channel = Some ''C1'', log_user = Some ''U2'',
     log_text = ''hello'', log_threadTs = None, log_botId = None\<rparr>"

text \<open>An object whose log is full.\<close>

definition example_full_log :: HumanInSlack where
  "example_full_log = example_human\<lparr>messageLog := replicate 50 example_entry\<rparr>"

section \<open>Properties\<close>

subsection \<open>Basic facts\<close>

lemma length_settle [simp]: "length (settle p v ps) = length ps"
  by (simp add: settle_def)

lemma settle_settled: "i < length ps \<Longrightarrow> ps ! i \<noteq> Pending \<Longrightarrow> settle p v ps ! i = ps ! i"
  by (auto simp: settle_def nth_list_update)

lemma settle_pending: "p < length ps \<Longrightarrow> ps ! p = Pending \<Longrightarrow> settle p v ps ! p = v"
  by (simp add: settle_def)

lemma scanPending_keys: "map fst (fst (scanPending c u t th entries rs ps)) = map fst entries"
  by (induction entries) (auto simp: Let_def split: prod.splits option.splits)

lemma scanPending_length: "length (snd (snd (scanPending c u t th entries rs ps))) = length ps"
  by (induction entries) (auto simp: Let_def split: prod.splits option.splits)

lemma scanPending_settled:
  "i < length ps \<Longrightarrow> ps ! i \<noteq> Pending \<Longrightarrow>
   snd (snd (scanPending c u t th entries rs ps)) ! i = ps ! i"
  by (induction entries) (auto simp: Let_def settle_settled split: prod.splits option.splits)

lemma scanPending_no_resolver:
  "rs k = None \<Longrightarrow> fst (snd (scanPending c u t th entries rs ps)) k = None"
  by (induction entries) (auto simp: Let_def split: prod.splits option.splits)

lemma scanPending_none:
  "\<forall>(k, q) \<in> set entries. \<not> (c = Some (channel q) \<and> u = Some (user q) \<and> th = Some (threadTs q)) \<Longrightarrow>
   scanPending c u t th entries rs ps = (entries, rs, ps)"
  by (induction entries) auto

lemma scanPending_first:
  "\<forall>(k, q') \<in> set before. \<not> (c = Some (channel q') \<and> u = Some (user q') \<and> th = Some (threadTs q')) \<Longrightarrow>
   c = Some (channel q) \<Longrightarrow> u = Some (user q) \<Longrightarrow> th = Some (threadTs q) \<Longrightarrow>
   scanPending c u t th (before @ (qid, q) # after) rs ps =
     (before @ (qid, q\<lparr>response := Some t, received := True\<rparr>) # after,
      (case rs qid of Some r \<Rightarrow> rs(qid := None) | None \<Rightarrow> rs),
      (case rs qid of Some r \<Rightarrow> settle r (Fulfilled t) ps | None \<Rightarrow> ps))"
  by (induction before) (auto simp: Let_def split: option.splits)

subsection \<open>What handling an event changes\<close>

lemma handle_no_agreeing:
  assumes "\<forall>(k, q) \<in> set (pendingResponses w). \<not> agrees e q"
  shows "pendingResponses (handleSocketModeRequest now e w) = pendingResponses w"
    and "responseResolvers (handleSocketModeRequest now e w) = responseResolvers w"
    and "promises (handleSocketModeRequest now e w) = promises w"
proof -
  have "scanPending (ev_channel e) (ev_user e) t (ev_thread_ts e) (pendingResponses w) rs ps =
          (pendingResponses w, rs, ps)" for t rs ps
    using assms by (intro scanPending_none) (auto simp: agrees_def)
  then show "pendingResponses (handleSocketModeRequest now e w) = pendingResponses w"
    and "responseResolvers (handleSocketModeRequest now e w) = responseResolvers w"
    and "promises (handleSocketModeRequest now e w) = promises w"
    by (simp_all add: handleSocketModeRequest_def Let_def)
qed

lemma handle_first_agreeing:
  assumes "ev_type e = ''message''" and "\<not> isSelfOriginated e"
    and "pendingResponses w = before @ (qid, q) # after"
    and "\<forall>(k, q') \<in> set before. \<not> agrees e q'" and "agrees e q"
  shows "pendingResponses (handleSocketModeRequest now e w) =
           before @ (qid, q\<lparr>response := Some (text_or_empty (ev_text e)), received := True\<rparr>) # after"
    and "responseResolvers (handleSocketModeRequest now e w) = (responseResolvers w)(qid := None)"
    and "promises (handleSocketModeRequest now e w) =
           (case responseResolvers w qid of
              Some r \<Rightarrow> settle r (Fulfilled (text_or_empty (ev_text e))) (promises w)
            | None \<Rightarrow> promises w)"
proof -
  have "scanPending (ev_channel e) (ev_user e) t (ev_thread_ts e) (before @ (qid, q) # after) rs ps =
     (before @ (qid, q\<lparr>response := Some t, received := True\<rparr>) # after,
      (case rs qid of Some r \<Rightarrow> rs(qid := None) | None \<Rightarrow> rs),
      (case rs qid of Some r \<Rightarrow> settle r (Fulfilled t) ps | None \<Rightarrow> ps))" for t rs ps
    using assms(4,5) by (intro scanPending_first) (auto simp: agrees_def)
  with assms(1,2,3)
  show "pendingResponses (handleSocketModeRequest now e w) =
           before @ (qid, q\<lparr>response := Some (text_or_empty (ev_text e)), received := True\<rparr>) # after"
    and "responseResolvers (handleSocketModeRequest now e w) = (responseResolvers w)(qid := None)"
    and "promises (handleSocketModeRequest now e w) =
           (case responseResolvers w qid of
              Some r \<Rightarrow> settle r (Fulfilled (text_or_empty (ev_text e))) (promises w)
            | None \<Rightarrow> promises w)"
    by (auto simp: handleSocketModeRequest_def isSelfOriginated_def Let_def split: option.splits)
qed

lemma scanPending_untouched:
  "\<not> (c = Some (channel q) \<and> u = Some (user q) \<and> th = Some (threadTs q)) \<Longrightarrow>
   fst (scanPending c u t th (before @ (qid, q) # after) rs ps) ! length before = (qid, q)"
  by (induction before) (auto simp: Let_def split: prod.splits option.splits)

lemma handle_untouched:
  assumes "pendingResponses w = before @ (qid, q) # after" and "\<not> agrees e q"
  shows "pendingResponses (handleSocketModeRequest now e w) ! length before = (qid, q)"
  using assms
    scanPending_untouched [of "ev_channel e" q "ev_user e" "ev_thread_ts e"
      "text_or_empty (ev_text e)" before qid after "responseResolvers w" "promises w"]
  by (auto simp: handleSocketModeRequest_def agrees_def Let_def split: prod.splits)

lemma settle_other: "r \<noteq> p \<Longrightarrow> settle r v ps ! p = ps ! p"
  by (simp add: settle_def)

lemma handle_keys:
  "map fst (pendingResponses (handleSocketModeRequest now e w)) = map fst (pendingResponses w)"
  using scanPending_keys [of "ev_channel e" "ev_user e" "text_or_empty (ev_text e)" "ev_thread_ts e"
      "pendingResponses w" "responseResolvers w" "promises w"]
  by (auto simp: handleSocketModeRequest_def Let_def split: prod.splits)

lemma handle_no_resolver:
  "responseResolvers w k = None \<Longrightarrow> responseResolvers (handleSocketModeRequest now e w) k = None"
  using scanPending_no_resolver [of "responseResolvers w" k "ev_channel e" "ev_user e"
      "text_or_empty (ev_text e)" "ev_thread_ts e" "pendingResponses w" "promises w"]
  by (auto simp: handleSocketModeRequest_def Let_def split: prod.splits)

lemma handle_length [simp]:
  "length (promises (handleSocketModeRequest now e w)) = length (promises w)"
  using scanPending_length [of "ev_channel e" "ev_user e" "text_or_empty (ev_text e)" "ev_thread_ts e"
      "pendingResponses w" "responseResolvers w" "promises w"]
  by (auto simp: handleSocketModeRequest_def Let_def split: prod.splits)

lemma handle_settled:
  "p < length (promises w) \<Longrightarrow> promises w ! p \<noteq> Pending \<Longrightarrow>
   promises (handleSocketModeRequest now e w) ! p = promises w ! p"
  using scanPending_settled [of p "promises w" "ev_channel e" "ev_user e"
      "text_or_empty (ev_text e)" "ev_thread_ts e" "pendingResponses w" "responseResolvers w"]
  by (auto simp: handleSocketModeRequest_def Let_def split: prod.splits)

lemma step_settled:
  assumes "p < length (promises w)" and "promises w ! p \<noteq> Pending"
  shows "p < length (promises (step w a)) \<and> promises (step w a) ! p = promises w ! p"
proof (cases a)
  case (SetHandler h)
  then show ?thesis using assms by (simp add: setHandler_def)
next
  case (Event now e)
  then show ?thesis using assms by (simp add: handle_settled)
next
  case (AskBegin now question)
  then show ?thesis using assms by (simp add: ask_begin_def Let_def)
next
  case (AskSent questionId result)
  then show ?thesis using assms
    by (cases result) (simp_all add: ask_sent_def Let_def nth_append)
next
  case (TimerFired questionId r)
  then show ?thesis using assms by (simp add: timeout_callback_def settle_settled)
next
  case (AskResume questionId r)
  then show ?thesis using assms by (simp add: ask_resume_def split: promise.splits)
qed

lemma run_settled:
  "p < length (promises w) \<Longrightarrow> promises w ! p \<noteq> Pending \<Longrightarrow>
   p < length (promises (run as w)) \<and> promises (run as w) ! p = promises w ! p"
  unfolding run_def
proof (induction as arbitrary: w)
  case Nil
  then show ?case by simp
next
  case (Cons a as)
  from step_settled [OF Cons.prems, of a]
  have s: "p < length (promises (step w a))" "promises (step w a) ! p = promises w ! p" by simp_all
  with Cons.prems have "promises (step w a) ! p \<noteq> Pending" by simp
  from Cons.IH [OF s(1) this] s show ?case by simp
qed

lemma run_events_keys:
  "map fst (pendingResponses (run (events es) w)) = map fst (pendingResponses w)"
  unfolding run_def events_def
  by (induction es arbitrary: w) (auto simp: handle_keys)

lemma run_events_no_resolver:
  "responseResolvers w k = None \<Longrightarrow> responseResolvers (run (events es) w) k = None"
  unfolding run_def events_def
  by (induction es arbitrary: w) (auto simp: handle_no_resolver)

lemma scanPending_unreferenced:
  "\<forall>k. rs k \<noteq> Some p \<Longrightarrow>
   snd (snd (scanPending c u t th entries rs ps)) ! p = ps ! p \<and>
   (\<forall>k. fst (snd (scanPending c u t th entries rs ps)) k \<noteq> Some p)"
proof (induction entries)
  case Nil
  then show ?case by simp
next
  case (Cons entry entries)
  obtain questionId questionData where entry: "entry = (questionId, questionData)"
    by (cases entry)
  have other: "r \<noteq> p" if "rs questionId = Some r" for r
    using Cons.prems that by auto
  show ?case
    using Cons other
    by (auto simp: entry Let_def settle_other split: prod.splits option.splits)
qed

lemma handle_unreferenced:
  assumes "\<forall>k. responseResolvers w k \<noteq> Some p"
  shows "promises (handleSocketModeRequest now e w) ! p = promises w ! p \<and>
         (\<forall>k. responseResolvers (handleSocketModeRequest now e w) k \<noteq> Some p)"
  using scanPending_unreferenced [OF assms, of "ev_channel e" "ev_user e"
      "text_or_empty (ev_text e)" "ev_thread_ts e" "pendingResponses w" "promises w"] assms
  by (auto simp: handleSocketModeRequest_def Let_def split: prod.splits)

lemma run_events_unreferenced:
  "\<forall>k. responseResolvers w k \<noteq> Some p \<Longrightarrow>
   promises (run (events es) w) ! p = promises w ! p"
  unfolding run_def events_def
proof (induction es arbitrary: w)
  case Nil
  then show ?case by simp
next
  case (Cons a es)
  obtain now e where a: "a = (now, e)" by (cases a)
  from handle_unreferenced [OF Cons.prems, of now e] Cons.IH [of "handleSocketModeRequest now e w"]
  show ?case by (simp add: a)
qed

lemma ask_timeout_fires:
  assumes "responseResolvers w qid \<noteq> None" and "p < length (promises w)"
    and "promises w ! p = Pending"
  shows "fst (ask_timeout qid p w) = Some (Inl Timeout)"
    and "qid \<notin> fst ` set (pendingResponses (snd (ask_timeout qid p w)))"
    and "responseResolvers (snd (ask_timeout qid p w)) qid = None"
    and "p < length (promises (snd (ask_timeout qid p w)))"
    and "promises (snd (ask_timeout qid p w)) ! p = Rejected Timeout"
  using assms
  by (auto simp: ask_timeout_def timeout_callback_def ask_resume_def settle_def
        AList.delete_notin_dom)

subsection \<open>Questions that an event does not agree with\<close>

lemma scanPending_frame:
  assumes "\<forall>(k, q') \<in> set entries. k = qid \<longrightarrow>
      \<not> (c = Some (channel q') \<and> u = Some (user q') \<and> th = Some (threadTs q'))"
    and "rs qid = Some p" and "\<forall>k. rs k = Some p \<longrightarrow> k = qid"
  shows "fst (snd (scanPending c u t th entries rs ps)) qid = Some p \<and>
         snd (snd (scanPending c u t th entries rs ps)) ! p = ps ! p"
  using assms(1)
proof (induction entries)
  case Nil
  then show ?case using assms(2) by simp
next
  case (Cons entry entries)
  obtain questionId questionData where entry: "entry = (questionId, questionData)"
    by (cases entry)
  from Cons.prems have rest: "\<forall>(k, q') \<in> set entries. k = qid \<longrightarrow>
      \<not> (c = Some (channel q') \<and> u = Some (user q') \<and> th = Some (threadTs q'))"
    by simp
  note IH = Cons.IH [OF rest]
  show ?case
  proof (cases "c = Some (channel questionData) \<and> u = Some (user questionData) \<and>
      th = Some (threadTs questionData)")
    case True
    with Cons.prems have ne: "questionId \<noteq> qid"
      by (auto simp: entry)
    show ?thesis
    proof (cases "rs questionId")
      case None
      with True assms(2) show ?thesis by (simp add: entry)
    next
      case (Some r)
      with assms(3) ne have "r \<noteq> p" by auto
      with True Some ne assms(2) show ?thesis
        by (simp add: entry settle_other)
    qed
  next
    case False
    then have "scanPending c u t th (entry # entries) rs ps =
        (case scanPending c u t th entries rs ps of
           (rest', rs', ps') \<Rightarrow> ((questionId, questionData) # rest', rs', ps'))"
      by (auto simp: entry)
    with IH show ?thesis by (auto split: prod.splits)
  qed
qed

lemma scanPending_subset:
  "fst (snd (scanPending c u t th entries rs ps)) k = Some p \<Longrightarrow> rs k = Some p"
  by (induction entries) (auto simp: Let_def split: prod.splits option.splits if_splits)

lemma handle_subset:
  "responseResolvers (handleSocketModeRequest now e w) k = Some p \<Longrightarrow> responseResolvers w k = Some p"
  using scanPending_subset [of "ev_channel e" "ev_user e" "text_or_empty (ev_text e)"
      "ev_thread_ts e" "pendingResponses w" "responseResolvers w" "promises w" k p]
  by (auto simp: handleSocketModeRequest_def Let_def split: prod.splits if_splits)

lemma handle_frame:
  assumes "pendingResponses w = before @ (qid, q) # after" and "\<not> agrees e q"
    and "responseResolvers w qid = Some p" and "well_formed w"
  shows "responseResolvers (handleSocketModeRequest now e w) qid = Some p"
    and "promises (handleSocketModeRequest now e w) ! p = promises w ! p"
proof -
  have own: "\<forall>(k, q') \<in> set (pendingResponses w). k = qid \<longrightarrow>
      \<not> (ev_channel e = Some (channel q') \<and> ev_user e = Some (user q') \<and>
         ev_thread_ts e = Some (threadTs q'))"
  proof clarify
    fix q'
    assume m: "(qid, q') \<in> set (pendingResponses w)"
      and a: "ev_channel e = Some (channel q')" "ev_user e = Some (user q')"
        "ev_thread_ts e = Some (threadTs q')"
    have d: "distinct (map fst (pendingResponses w))"
      using assms(4) by (simp add: well_formed_def)
    have own: "(qid, q) \<in> set (pendingResponses w)"
      using assms(1) by simp
    have "q' = q"
      by (rule eq_key_imp_eq_value [OF d m own])
    with a assms(2) show False by (simp add: agrees_def)
  qed
  have inj: "\<forall>k. responseResolvers w k = Some p \<longrightarrow> k = qid"
    using assms(3,4) by (auto simp: well_formed_def)
  from scanPending_frame [OF own assms(3) inj, of "text_or_empty (ev_text e)" "promises w"]
  show "responseResolvers (handleSocketModeRequest now e w) qid = Some p"
    and "promises (handleSocketModeRequest now e w) ! p = promises w ! p"
    using assms(3)
    by (auto simp: handleSocketModeRequest_def Let_def split: prod.splits)
qed

lemma step_well_formed: "well_formed w \<Longrightarrow> well_formed (step w a)"
proof (cases a)
  case (SetHandler h)
  assume "well_formed w"
  then show ?thesis using SetHandler by (simp add: well_formed_def setHandler_def)
next
  case (Event now e)
  assume wf: "well_formed w"
  have "distinct (map fst (pendingResponses (handleSocketModeRequest now e w)))"
    using wf by (simp add: handle_keys well_formed_def)
  moreover have "\<forall>k k' p. responseResolvers (handleSocketModeRequest now e w) k = Some p \<and>
      responseResolvers (handleSocketModeRequest now e w) k' = Some p \<longrightarrow> k = k'"
    using wf handle_subset [of now e w] unfolding well_formed_def by blast
  moreover have "\<forall>k p. responseResolvers (handleSocketModeRequest now e w) k = Some p \<longrightarrow>
      p < length (promises (handleSocketModeRequest now e w))"
    using wf handle_subset [of now e w] unfolding well_formed_def
    by (metis handle_length)
  ultimately show ?thesis using Event by (simp add: well_formed_def)
next
  case (AskBegin now question)
  assume "well_formed w"
  then show ?thesis using AskBegin by (simp add: well_formed_def ask_begin_def Let_def)
next
  case (AskSent questionId result)
  assume wf: "well_formed w"
  show ?thesis
  proof (cases result)
    case (PostOk ts)
    let ?w' = "snd (ask_sent questionId (PostOk ts) w)"
    have rs: "responseResolvers ?w' = (responseResolvers w)(questionId \<mapsto> length (promises w))"
      and ps: "length (promises ?w') = Suc (length (promises w))"
      and ks: "distinct (map fst (pendingResponses ?w'))"
      using wf by (simp_all add: ask_sent_def Let_def well_formed_def AList.distinct_update)
    have bound: "p < length (promises w)" if "responseResolvers w k = Some p" for k p
      using wf that unfolding well_formed_def by blast
    have inj: "k = k'" if "responseResolvers w k = Some p" "responseResolvers w k' = Some p" for k k' p
      using wf that unfolding well_formed_def by blast
    have "k = k'" if "responseResolvers ?w' k = Some p" "responseResolvers ?w' k' = Some p" for k k' p
    proof (cases "k = questionId"; cases "k' = questionId")
      assume "k = questionId" "k' = questionId"
      then show ?thesis by simp
    next
      assume "k = questionId" "k' \<noteq> questionId"
      with that rs have "p = length (promises w)" "responseResolvers w k' = Some p" by simp_all
      with bound show ?thesis by blast
    next
      assume "k \<noteq> questionId" "k' = questionId"
      with that rs have "p = length (promises w)" "responseResolvers w k = Some p" by simp_all
      with bound show ?thesis by blast
    next
      assume "k \<noteq> questionId" "k' \<noteq> questionId"
      with that rs inj show ?thesis by simp
    qed
    moreover have "p < length (promises ?w')" if "responseResolvers ?w' k = Some p" for k p
    proof (cases "k = questionId")
      case True
      with that rs ps show ?thesis by simp
    next
      case False
      with that rs have "responseResolvers w k = Some p" by simp
      with bound ps show ?thesis by (simp add: less_Suc_eq)
    qed
    ultimately show ?thesis
      using ks AskSent PostOk unfolding well_formed_def by (simp only: step.simps) blast
  next
    case (PostNotOk err)
    then show ?thesis using wf AskSent
      by (simp add: well_formed_def ask_sent_def AList.distinct_delete)
  next
    case (PostThrew msg)
    then show ?thesis using wf AskSent
      by (simp add: well_formed_def ask_sent_def AList.distinct_delete)
  qed
next
  case (TimerFired questionId r)
  assume "well_formed w"
  then show ?thesis using TimerFired
    by (auto simp: well_formed_def timeout_callback_def split: if_splits)
next
  case (AskResume questionId r)
  assume "well_formed w"
  then show ?thesis using AskResume
    by (auto simp: well_formed_def ask_resume_def AList.distinct_delete
          split: promise.splits if_splits)
qed

lemma run_well_formed: "well_formed w \<Longrightarrow> well_formed (run as w)"
  unfolding run_def by (induction as arbitrary: w) (auto simp: step_well_formed)

lemma new_well_formed: "well_formed (new_HumanInSlack uid cid)"
  by (simp add: well_formed_def new_HumanInSlack_def)

subsection \<open>The example values, evaluated\<close>

lemma example_waiting_eq:
  "example_waiting =
     \<lparr>handler = Some \<lparr>isReady = True\<rparr>, userId = ''U1'', channelId = ''C1'',
      pendingResponses = [(''q_1000'', \<lparr>channel = ''C1'', user = ''U1'', threadTs = ''T1'',
                                        response = None, received = False\<rparr>)],
      responseResolvers = [''q_1000'' \<mapsto> 0], messageLog = [], eventCount = 0,
      promises = [Pending], posted = [(''C1'', ''<@U1> What is the API key?'')]\<rparr>"
  by (simp add: example_waiting_def example_human_def setHandler_def new_HumanInSlack_def
       ask_begin_def ask_sent_def ready_def Let_def digit_def)

lemma example_two_waiting_eq:
  "example_two_waiting =
     \<lparr>handler = Some \<lparr>isReady = True\<rparr>, userId = ''U1'', channelId = ''C1'',
      pendingResponses =
        [(''q_1000'', \<lparr>channel = ''C1'', user = ''U1'', threadTs = ''T1'',
                       response = None, received = False\<rparr>),
         (''q_2000'', \<lparr>channel = ''C1'', user = ''U1'', threadTs = ''T2'',
                       response = None, received = False\<rparr>)],
      responseResolvers = [''q_1000'' \<mapsto> 0, ''q_2000'' \<mapsto> 1], messageLog = [],
      eventCount = 0, promises = [Pending, Pending],
      posted = [(''C1'', ''<@U1> What is the API key?''), (''C1'', ''<@U1> Which region?'')]\<rparr>"
  by (simp add: example_two_waiting_def example_waiting_eq ask_begin_def ask_sent_def ready_def
        Let_def digit_def)

lemma example_resolved_eq:
  "example_resolved =
     \<lparr>handler = Some \<lparr>isReady = True\<rparr>, userId = ''U1'', channelId = ''C1'',
      pendingResponses = [(''q_1000'', \<lparr>channel = ''C1'', user = ''U1'', threadTs = ''T1'',
                                        response = Some ''first'', received = True\<rparr>)],
      responseResolvers = Map.empty, 
      messageLog = [\<lparr>log_timestamp = 2000, log_channel = Some ''C1'', log_user = Some ''U1'',
          log_text = ''first'', log_threadTs = Some ''T1'', log_botId = None\<rparr>], eventCount = 1,
      promises = [Fulfilled ''first''], posted = [(''C1'', ''<@U1> What is the API key?'')]\<rparr>"
  by (simp add: example_resolved_def example_waiting_eq example_reply_def handleSocketModeRequest_def
       logMessage_def text_or_empty_def truthy_def settle_def Let_def)

lemma race_sending_eq:
  "race_sending = example_human\<lparr>posted := [(''C1'', ''<@U1> What is the API key?'')]\<rparr>"
  by (simp add: race_sending_def ask_begin_def ready_def example_human_def setHandler_def
        new_HumanInSlack_def Let_def)

lemma collide_both_sending_eq:
  "collide_both_sending =
     example_human\<lparr>posted := [(''C1'', ''<@U1> first?''), (''C1'', ''<@U1> second?'')]\<rparr>"
  by (simp add: collide_both_sending_def collide_first_sending_def ask_begin_def ready_def
        example_human_def setHandler_def new_HumanInSlack_def Let_def)

lemma collide_both_waiting_eq:
  "collide_both_waiting =
     \<lparr>handler = Some \<lparr>isReady = True\<rparr>, userId = ''U1'', channelId = ''C1'',
      pendingResponses = [(''q_1700000000000'', \<lparr>channel = ''C1'', user = ''U1'', threadTs = ''T2'',
                                        response = None, received = False\<rparr>)],
      responseResolvers = [''q_1700000000000'' \<mapsto> 1], messageLog = [], eventCount = 0,
      promises = [Pending, Pending],
      posted = [(''C1'', ''<@U1> first?''), (''C1'', ''<@U1> second?'')]\<rparr>"
  by (simp add: collide_both_waiting_def collide_first_waiting_def collide_both_sending_eq
        example_human_def setHandler_def new_HumanInSlack_def ask_sent_def Let_def)

lemma collide_first_timed_out_eq:
  "collide_first_timed_out =
     \<lparr>handler = Some \<lparr>isReady = True\<rparr>, userId = ''U1'', channelId = ''C1'',
      pendingResponses = [],
      responseResolvers = Map.empty, messageLog = [], eventCount = 0,
      promises = [Rejected Timeout, Pending],
      posted = [(''C1'', ''<@U1> first?''), (''C1'', ''<@U1> second?'')]\<rparr>"
  by (simp add: collide_first_timed_out_def collide_both_waiting_eq ask_timeout_def
        timeout_callback_def ask_resume_def settle_def AList.delete_eq)

subsection \<open>The message log\<close>

lemma logMessage_bound: "length msgs \<le> 50 \<Longrightarrow> length (logMessage now e msgs) \<le> 50"
  by (auto simp: logMessage_def Let_def)

lemma logMessage_evicts:
  "length msgs = 50 \<Longrightarrow> \<exists>entry. logMessage now e msgs = tl msgs @ [entry]"
  by (cases msgs) (auto simp: logMessage_def Let_def)

lemma handle_messageLog:
  "messageLog (handleSocketModeRequest now e w) =
     (if ev_type e = ''message'' then logMessage now e (messageLog w) else messageLog w)"
  by (simp add: handleSocketModeRequest_def Let_def split: prod.splits)

lemma step_messageLog_bound:
  "length (messageLog w) \<le> 50 \<Longrightarrow> length (messageLog (step w a)) \<le> 50"
  by (cases a)
     (auto simp: handle_messageLog logMessage_bound setHandler_def ask_begin_def ask_sent_def
        timeout_callback_def ask_resume_def Let_def split: post_result.splits promise.splits)

lemma run_messageLog_bound:
  "length (messageLog w) \<le> 50 \<Longrightarrow> length (messageLog (run as w)) \<le> 50"
  unfolding run_def by (induction as arbitrary: w) (auto simp: step_messageLog_bound)

lemma getMessageLog_copy:
  assumes "a < length h"
  shows "snd (getMessageLog a h) ! fst (getMessageLog a h) = h ! a"
    and "mutate (fst (getMessageLog a h)) f (snd (getMessageLog a h)) ! a = h ! a"
  using assms by (auto simp: getMessageLog_def spread_def mutate_def nth_append nth_list_update)

text \<open>
  Claim C10. The log never holds more than 50 entries: handling an event keeps the bound,
  a full log loses its oldest entry when a message is appended, every run keeps the bound,
  and so it holds after every run from a new object. \<^verbatim>\<open>getMessageLog\<close> returns a new array with the elements
  of the log, at an address other than the log's, so whatever is done to the returned array
  leaves the log as it was.
\<close>

theorem messageLog_bounded_and_copied:
  "(length (messageLog w) \<le> 50 \<longrightarrow>
      length (messageLog (handleSocketModeRequest now e w)) \<le> 50) \<and>
   (length (messageLog w) = 50 \<and> ev_type e = ''message'' \<longrightarrow>
      butlast (messageLog (handleSocketModeRequest now e w)) = tl (messageLog w)) \<and>
   (length (messageLog w) \<le> 50 \<longrightarrow> length (messageLog (run as w)) \<le> 50) \<and>
   length (messageLog (run as (new_HumanInSlack uid cid))) \<le> 50 \<and>
   (a < length h \<longrightarrow>
      snd (getMessageLog a h) ! fst (getMessageLog a h) = h ! a \<and>
      mutate (fst (getMessageLog a h)) f (snd (getMessageLog a h)) ! a = h ! a)"
proof -
  have 1: "length (messageLog w) \<le> 50 \<longrightarrow>
      length (messageLog (handleSocketModeRequest now e w)) \<le> 50"
    by (simp add: handle_messageLog logMessage_bound)
  have 2: "length (messageLog w) = 50 \<and> ev_type e = ''message'' \<longrightarrow>
      butlast (messageLog (handleSocketModeRequest now e w)) = tl (messageLog w)"
    using logMessage_evicts [of "messageLog w" now e] by (auto simp: handle_messageLog)
  have 3: "length (messageLog (run as (new_HumanInSlack uid cid))) \<le> 50"
    by (rule run_messageLog_bound) (simp add: new_HumanInSlack_def)
  show ?thesis
    using 1 2 3 run_messageLog_bound [of w as] getMessageLog_copy [of a h] by blast
qed

theorem messageLog_bounded_and_copied_witness:
  "length (messageLog example_full_log) = 50 \<and>
   length (messageLog (handleSocketModeRequest 2000 (example_reply ''T1'' (Some ''hi''))
      example_full_log)) \<le> 50 \<and>
   butlast (messageLog (handleSocketModeRequest 2000 (example_reply ''T1'' (Some ''hi''))
      example_full_log)) = tl (messageLog example_full_log) \<and>
   mutate (fst (getMessageLog 0 [[example_entry]])) (\<lambda>xs. [])
      (snd (getMessageLog 0 [[example_entry]])) ! 0 = [example_entry]"
proof -
  have h: "length (messageLog example_full_log) = 50"
    by (simp add: example_full_log_def)
  have t: "ev_type (example_reply ''T1'' (Some ''hi'')) = ''message''"
    by (simp add: example_reply_def)
  have a: "(0::nat) < length [[example_entry]]" by simp
  show ?thesis
    using h t a
      messageLog_bounded_and_copied [of example_full_log 2000 "example_reply ''T1'' (Some ''hi'')"
        "[]" "''U1''" "''C1''" 0 "[[example_entry]]" "\<lambda>xs. []"]
    by simp
qed

subsection \<open>Readiness\<close>

text \<open>
  Claim C7. A call of \<^verbatim>\<open>ask\<close> made while there is no handler, or while the handler is
  not ready, fails with \<open>NotReady\<close> at once: it ends before the call of
  \<^verbatim>\<open>postMessage\<close>, and the object, with its store and the list of posted messages, is the
  one it started from.
\<close>

theorem ask_fails_fast_when_not_ready:
  "\<not> ready w \<Longrightarrow> ask_begin now question w = (Inl NotReady, w)"
  by (simp add: ask_begin_def)

theorem ask_fails_fast_when_not_ready_witness:
  "\<not> ready (new_HumanInSlack ''U1'' ''C1'') \<and>
   ask_begin 1000 ''Ready?'' (new_HumanInSlack ''U1'' ''C1'') =
     (Inl NotReady, new_HumanInSlack ''U1'' ''C1'')"
proof -
  have h: "\<not> ready (new_HumanInSlack ''U1'' ''C1'')"
    by (simp add: ready_def new_HumanInSlack_def)
  show ?thesis using h ask_fails_fast_when_not_ready [OF h, of 1000 "''Ready?''"] by simp
qed

subsection \<open>Events of bots\<close>

text \<open>
  Claim C8. An event with a \<^verbatim>\<open>bot_id\<close> is never looked at as a reply: whatever its
  channel, user and thread, handling it leaves every pending record, every resolver and
  every promise as they were.
\<close>

theorem self_originated_event_resolves_nothing:
  "isSelfOriginated e \<Longrightarrow>
   pendingResponses (handleSocketModeRequest now e w) = pendingResponses w \<and>
   responseResolvers (handleSocketModeRequest now e w) = responseResolvers w \<and>
   promises (handleSocketModeRequest now e w) = promises w"
  by (simp add: isSelfOriginated_def handleSocketModeRequest_def Let_def)

theorem self_originated_event_resolves_nothing_witness:
  "isSelfOriginated example_bot_reply \<and>
   agrees example_bot_reply (snd (hd (pendingResponses example_waiting))) \<and>
   pendingResponses (handleSocketModeRequest 2000 example_bot_reply example_waiting) =
     pendingResponses example_waiting \<and>
   promises (handleSocketModeRequest 2000 example_bot_reply example_waiting) = [Pending]"
proof -
  have h: "isSelfOriginated example_bot_reply"
    by (simp add: isSelfOriginated_def example_bot_reply_def truthy_def)
  have a: "agrees example_bot_reply (snd (hd (pendingResponses example_waiting)))"
    by (simp add: agrees_def example_bot_reply_def example_reply_def example_waiting_eq)
  have p: "promises example_waiting = [Pending]"
    by (simp add: example_waiting_eq)
  show ?thesis
    using h a p self_originated_event_resolves_nothing [OF h, of 2000 example_waiting] by simp
qed

subsection \<open>Matching\<close>

text \<open>
  Claim C3. Let a message event that no bot sent be handled while a question waits: its
  record is in the store and not yet received, its resolver is registered and its promise
  pending; and let no earlier record of the store carry the same channel, user and message
  identifier (identifiers of messages are unique; the loop stops at the first record that
  agrees). Then the event resolves the question (marks the record with the text and fulfils
  the promise) if and only if the event's channel, user and \<^verbatim>\<open>thread_ts\<close> equal the
  record's channel, user and \<^verbatim>\<open>threadTs\<close>. When they are equal, the promise of this
  question is the only promise that changes and its resolver the only one removed. In a
  well-formed object the caller is woken exactly in that case: the promise is fulfilled if
  the three fields agree and stays pending if one of them differs, whatever other question
  the event resolves; a question that the event does not agree with keeps its record, its
  resolver and the state of its promise. An event that agrees with no record, and so every
  event without \<^verbatim>\<open>thread_ts\<close>, changes neither store nor resolvers nor promises. Every
  run keeps an object well-formed, and a new object is.
\<close>

theorem reply_resolves_iff_three_fields_agree:
  "(ev_type e = ''message'' \<and> \<not> isSelfOriginated e \<and>
    pendingResponses w = before @ (qid, q) # after \<and> \<not> received q \<and>
    responseResolvers w qid = Some p \<and> p < length (promises w) \<and> promises w ! p = Pending \<and>
    (\<forall>(k, q') \<in> set before. \<not> same_key q q')
    \<longrightarrow>
      ((pendingResponses (handleSocketModeRequest now e w) =
          before @ (qid, q\<lparr>response := Some (text_or_empty (ev_text e)), received := True\<rparr>) # after \<and>
        promises (handleSocketModeRequest now e w) ! p = Fulfilled (text_or_empty (ev_text e)))
       \<longleftrightarrow>
       (ev_channel e = Some (channel q) \<and> ev_user e = Some (user q) \<and>
        ev_thread_ts e = Some (threadTs q))) \<and>
      (ev_channel e = Some (channel q) \<and> ev_user e = Some (user q) \<and>
       ev_thread_ts e = Some (threadTs q) \<longrightarrow>
         promises (handleSocketModeRequest now e w) =
           (promises w)[p := Fulfilled (text_or_empty (ev_text e))] \<and>
         responseResolvers (handleSocketModeRequest now e w) =
           (responseResolvers w)(qid := None)) \<and>
      (well_formed w \<longrightarrow>
         (promises (handleSocketModeRequest now e w) ! p = Fulfilled (text_or_empty (ev_text e))
          \<longleftrightarrow>
          (ev_channel e = Some (channel q) \<and> ev_user e = Some (user q) \<and>
           ev_thread_ts e = Some (threadTs q))) \<and>
         (promises (handleSocketModeRequest now e w) ! p = Pending
          \<longleftrightarrow>
          \<not> (ev_channel e = Some (channel q) \<and> ev_user e = Some (user q) \<and>
             ev_thread_ts e = Some (threadTs q))))) \<and>
   (pendingResponses w = before @ (qid, q) # after \<and> responseResolvers w qid = Some p \<and>
    well_formed w \<and>
    \<not> (ev_channel e = Some (channel q) \<and> ev_user e = Some (user q) \<and>
       ev_thread_ts e = Some (threadTs q)) \<longrightarrow>
      responseResolvers (handleSocketModeRequest now e w) qid = Some p \<and>
      promises (handleSocketModeRequest now e w) ! p = promises w ! p) \<and>
   (pendingResponses w = before @ (qid, q) # after \<and>
    \<not> (ev_channel e = Some (channel q) \<and> ev_user e = Some (user q) \<and>
       ev_thread_ts e = Some (threadTs q)) \<longrightarrow>
      pendingResponses (handleSocketModeRequest now e w) ! length before = (qid, q)) \<and>
   ((\<forall>(k, q') \<in> set (pendingResponses w). \<not> agrees e q') \<longrightarrow>
      pendingResponses (handleSocketModeRequest now e w) = pendingResponses w \<and>
      responseResolvers (handleSocketModeRequest now e w) = responseResolvers w \<and>
      promises (handleSocketModeRequest now e w) = promises w) \<and>
   (ev_thread_ts e = None \<longrightarrow>
      pendingResponses (handleSocketModeRequest now e w) = pendingResponses w \<and>
      responseResolvers (handleSocketModeRequest now e w) = responseResolvers w \<and>
      promises (handleSocketModeRequest now e w) = promises w) \<and>
   (well_formed w \<longrightarrow> well_formed (run as w)) \<and>
   well_formed (new_HumanInSlack uid cid)"
proof -
  let ?w' = "handleSocketModeRequest now e w"
  let ?t = "text_or_empty (ev_text e)"
  let ?three = "ev_channel e = Some (channel q) \<and> ev_user e = Some (user q) \<and>
        ev_thread_ts e = Some (threadTs q)"
  let ?marked = "pendingResponses ?w' =
      before @ (qid, q\<lparr>response := Some ?t, received := True\<rparr>) # after"
  let ?H = "ev_type e = ''message'' \<and> \<not> isSelfOriginated e \<and>
      pendingResponses w = before @ (qid, q) # after \<and> \<not> received q \<and>
      responseResolvers w qid = Some p \<and> p < length (promises w) \<and> promises w ! p = Pending \<and>
      (\<forall>(k, q') \<in> set before. \<not> same_key q q')"
  have untouched: "pendingResponses ?w' ! length before = (qid, q)"
    if "pendingResponses w = before @ (qid, q) # after" and "\<not> ?three"
    using handle_untouched [OF that(1), of e now] that(2) by (simp add: agrees_def)
  have frame: "responseResolvers ?w' qid = Some p \<and> promises ?w' ! p = promises w ! p"
    if "pendingResponses w = before @ (qid, q) # after" and "responseResolvers w qid = Some p"
      and "well_formed w" and "\<not> ?three"
  proof -
    from that(4) have "\<not> agrees e q" by (simp add: agrees_def)
    from handle_frame [OF that(1) this that(2,3), of now] show ?thesis by simp
  qed
  have yes: "?marked \<and> promises ?w' = (promises w)[p := Fulfilled ?t] \<and>
      responseResolvers ?w' = (responseResolvers w)(qid := None)"
    if H: "?H" and three: "?three"
  proof -
    from three have a: "agrees e q" by (simp add: agrees_def)
    from H three have b: "\<forall>(k, q') \<in> set before. \<not> agrees e q'"
      by (auto simp: agrees_def same_key_def)
    show ?thesis
      using handle_first_agreeing [OF _ _ _ b a, of w qid after now] H
      by (simp add: settle_def)
  qed
  have iff: "(?marked \<and> promises ?w' ! p = Fulfilled ?t) \<longleftrightarrow> ?three" if H: "?H"
  proof
    assume "?three"
    from yes [OF H this] H show "?marked \<and> promises ?w' ! p = Fulfilled ?t" by simp
  next
    assume r: "?marked \<and> promises ?w' ! p = Fulfilled ?t"
    show "?three"
    proof (rule ccontr)
      assume "\<not> ?three"
      with untouched H have "pendingResponses ?w' ! length before = (qid, q)" by simp
      moreover from r have "pendingResponses ?w' ! length before =
          (qid, q\<lparr>response := Some ?t, received := True\<rparr>)"
        by simp
      ultimately have "q = q\<lparr>response := Some ?t, received := True\<rparr>"
        by simp
      then have "received q = received (q\<lparr>response := Some ?t, received := True\<rparr>)"
        by simp
      with H show False by simp
    qed
  qed
  have woken: "(promises ?w' ! p = Fulfilled ?t \<longleftrightarrow> ?three) \<and>
      (promises ?w' ! p = Pending \<longleftrightarrow> \<not> ?three)"
    if H: "?H" and wf: "well_formed w"
  proof (cases "?three")
    case True
    from yes [OF H True] H have "promises ?w' ! p = Fulfilled ?t" by simp
    with True show ?thesis by simp
  next
    case False
    from frame [OF _ _ wf False] H have "promises ?w' ! p = Pending" by simp
    with False show ?thesis by simp
  qed
  have none: "pendingResponses ?w' = pendingResponses w \<and>
      responseResolvers ?w' = responseResolvers w \<and> promises ?w' = promises w"
    if "\<forall>(k, q') \<in> set (pendingResponses w). \<not> agrees e q'"
    using handle_no_agreeing [OF that] by simp
  have no_thread: "pendingResponses ?w' = pendingResponses w \<and>
      responseResolvers ?w' = responseResolvers w \<and> promises ?w' = promises w"
    if "ev_thread_ts e = None"
  proof -
    from that have "\<forall>(k, q') \<in> set (pendingResponses w). \<not> agrees e q'"
      by (auto simp: agrees_def)
    then show ?thesis by (rule none)
  qed
  have first: "?H \<longrightarrow> ((?marked \<and> promises ?w' ! p = Fulfilled ?t) \<longleftrightarrow> ?three) \<and>
      (?three \<longrightarrow> promises ?w' = (promises w)[p := Fulfilled ?t] \<and>
         responseResolvers ?w' = (responseResolvers w)(qid := None)) \<and>
      (well_formed w \<longrightarrow> (promises ?w' ! p = Fulfilled ?t \<longleftrightarrow> ?three) \<and>
         (promises ?w' ! p = Pending \<longleftrightarrow> \<not> ?three))"
    using iff yes woken by blast
  have second: "pendingResponses w = before @ (qid, q) # after \<and>
      responseResolvers w qid = Some p \<and> well_formed w \<and> \<not> ?three \<longrightarrow>
      responseResolvers ?w' qid = Some p \<and> promises ?w' ! p = promises w ! p"
    using frame by blast
  have third: "pendingResponses w = before @ (qid, q) # after \<and> \<not> ?three \<longrightarrow>
      pendingResponses ?w' ! length before = (qid, q)"
    using untouched by blast
  have inv: "(well_formed w \<longrightarrow> well_formed (run as w)) \<and> well_formed (new_HumanInSlack uid cid)"
    using run_well_formed [of w as] new_well_formed [of uid cid] by blast
  have fourth: "(\<forall>(k, q') \<in> set (pendingResponses w). \<not> agrees e q') \<longrightarrow>
      pendingResponses ?w' = pendingResponses w \<and>
      responseResolvers ?w' = responseResolvers w \<and> promises ?w' = promises w"
    using none by blast
  have fifth: "ev_thread_ts e = None \<longrightarrow>
      pendingResponses ?w' = pendingResponses w \<and>
      responseResolvers ?w' = responseResolvers w \<and> promises ?w' = promises w"
    using no_thread by blast
  show ?thesis
    by (rule conjI [OF first conjI [OF second conjI [OF third conjI [OF fourth conjI [OF fifth inv]]]]])
qed

theorem reply_resolves_iff_three_fields_agree_witness:
  "well_formed example_two_waiting \<and>
   map (threadTs \<circ> snd) (pendingResponses example_two_waiting) = [''T1'', ''T2''] \<and>
   promises (handleSocketModeRequest 3000 (example_reply ''T2'' (Some ''eu-west''))
      example_two_waiting) ! 1 = Fulfilled ''eu-west'' \<and>
   promises (handleSocketModeRequest 3000 (example_reply ''T2'' (Some ''eu-west''))
      example_two_waiting) ! 0 = Pending \<and>
   responseResolvers (handleSocketModeRequest 3000 (example_reply ''T2'' (Some ''eu-west''))
      example_two_waiting) ''q_1000'' = Some 0 \<and>
   map (received \<circ> snd) (pendingResponses (handleSocketModeRequest 3000
      (example_reply ''T2'' (Some ''eu-west'')) example_two_waiting)) = [False, True] \<and>
   pendingResponses (handleSocketModeRequest 3000 (example_reply ''T3'' (Some ''eu-west''))
      example_two_waiting) ! 1 = pendingResponses example_two_waiting ! 1 \<and>
   promises (handleSocketModeRequest 3000 (example_reply ''T3'' (Some ''eu-west''))
      example_two_waiting) = [Pending, Pending] \<and>
   ev_thread_ts example_top_level = None \<and>
   promises (handleSocketModeRequest 3000 example_top_level example_two_waiting) =
     [Pending, Pending]"
proof -
  let ?q1 = "\<lparr>channel = ''C1'', user = ''U1'', threadTs = ''T1'', response = None, received = False\<rparr>"
  let ?q2 = "\<lparr>channel = ''C1'', user = ''U1'', threadTs = ''T2'', response = None, received = False\<rparr>"
  have s: "pendingResponses example_two_waiting = [(''q_1000'', ?q1)] @ (''q_2000'', ?q2) # []"
    "responseResolvers example_two_waiting ''q_2000'' = Some 1"
    "responseResolvers example_two_waiting ''q_1000'' = Some 0"
    "promises example_two_waiting = [Pending, Pending]"
    by (simp_all add: example_two_waiting_eq)
  have s1: "pendingResponses example_two_waiting = [] @ (''q_1000'', ?q1) # [(''q_2000'', ?q2)]"
    by (simp add: example_two_waiting_eq)
  have wf: "well_formed example_two_waiting"
    by (auto simp: well_formed_def example_two_waiting_eq split: if_splits)
  have u: "\<forall>(k, q') \<in> set [(''q_1000'', ?q1)]. \<not> same_key ?q2 q'"
    by (simp add: same_key_def)
  have e: "ev_type (example_reply th t) = ''message''" "\<not> isSelfOriginated (example_reply th t)"
    "ev_channel (example_reply th t) = Some ''C1''" "ev_user (example_reply th t) = Some ''U1''"
    "ev_thread_ts (example_reply th t) = Some th" "ev_text (example_reply th t) = t" for th t
    by (simp_all add: example_reply_def isSelfOriginated_def truthy_def)
  have n: "ev_thread_ts example_top_level = None"
    by (simp add: example_top_level_def)
  have a: "\<forall>(k, q') \<in> set (pendingResponses example_two_waiting).
      \<not> agrees (example_reply ''T3'' (Some ''eu-west'')) q'"
    by (simp add: s agrees_def e)
  have first: "promises (handleSocketModeRequest 3000 (example_reply ''T2'' (Some ''eu-west''))
      example_two_waiting) ! 0 = Pending \<and>
    responseResolvers (handleSocketModeRequest 3000 (example_reply ''T2'' (Some ''eu-west''))
      example_two_waiting) ''q_1000'' = Some 0"
    using s1 s(3,4) e wf
      reply_resolves_iff_three_fields_agree [of "example_reply ''T2'' (Some ''eu-west'')"
        example_two_waiting "[]" "''q_1000''" ?q1 "[(''q_2000'', ?q2)]" 0 3000]
    by simp
  have rest: "promises (handleSocketModeRequest 3000 (example_reply ''T2'' (Some ''eu-west''))
      example_two_waiting) ! 1 = Fulfilled ''eu-west'' \<and>
   map (received \<circ> snd) (pendingResponses (handleSocketModeRequest 3000
      (example_reply ''T2'' (Some ''eu-west'')) example_two_waiting)) = [False, True] \<and>
   pendingResponses (handleSocketModeRequest 3000 (example_reply ''T3'' (Some ''eu-west''))
      example_two_waiting) ! 1 = pendingResponses example_two_waiting ! 1 \<and>
   promises (handleSocketModeRequest 3000 (example_reply ''T3'' (Some ''eu-west''))
      example_two_waiting) = [Pending, Pending] \<and>
   promises (handleSocketModeRequest 3000 example_top_level example_two_waiting) =
     [Pending, Pending]"
    using s u e n a
      reply_resolves_iff_three_fields_agree [of "example_reply ''T2'' (Some ''eu-west'')"
        example_two_waiting "[(''q_1000'', ?q1)]" "''q_2000''" ?q2 "[]" 1 3000]
      reply_resolves_iff_three_fields_agree [of "example_reply ''T3'' (Some ''eu-west'')"
        example_two_waiting "[(''q_1000'', ?q1)]" "''q_2000''" ?q2 "[]" 1 3000]
      reply_resolves_iff_three_fields_agree [of example_top_level
        example_two_waiting "[(''q_1000'', ?q1)]" "''q_2000''" ?q2 "[]" 1 3000]
    by (simp add: text_or_empty_def)
  from wf s first rest n show ?thesis by simp
qed

text \<open>
  Claim C9. When a message event that no bot sent agrees with a waiting question (no
  earlier record of the store carrying the same channel, user and message identifier) and
  has no text, or the empty text, the question is resolved all the same: the record is marked received with the empty string, the promise is fulfilled with
  it, and the resumed \<^verbatim>\<open>ask\<close> returns it.
\<close>

theorem empty_text_reply_resolves_with_empty_string:
  assumes "ev_type e = ''message''" and "\<not> isSelfOriginated e"
    and "pendingResponses w = before @ (qid, q) # after"
    and "\<forall>(k, q') \<in> set before. \<not> same_key q q'" and "agrees e q"
    and "responseResolvers w qid = Some p" and "p < length (promises w)"
    and "promises w ! p = Pending"
    and "ev_text e = None \<or> ev_text e = Some ''''"
  shows "pendingResponses (handleSocketModeRequest now e w) =
           before @ (qid, q\<lparr>response := Some '''', received := True\<rparr>) # after \<and>
         promises (handleSocketModeRequest now e w) ! p = Fulfilled '''' \<and>
         fst (ask_resume qid p (handleSocketModeRequest now e w)) = Some (Inr '''')"
proof -
  have t: "text_or_empty (ev_text e) = ''''"
    using assms(9) by (auto simp: text_or_empty_def)
  have first: "\<forall>(k, q') \<in> set before. \<not> agrees e q'"
    using assms(4,5) by (auto simp: agrees_def same_key_def)
  have "promises (handleSocketModeRequest now e w) ! p = Fulfilled ''''"
    using handle_first_agreeing(3) [OF assms(1-3) first assms(5), of now] assms(6-8) t
    by (simp add: settle_pending)
  moreover have "pendingResponses (handleSocketModeRequest now e w) =
           before @ (qid, q\<lparr>response := Some '''', received := True\<rparr>) # after"
    using handle_first_agreeing(1) [OF assms(1-3) first assms(5), of now] t by simp
  ultimately show ?thesis
    using assms(7) by (simp add: ask_resume_def)
qed

theorem empty_text_reply_resolves_with_empty_string_witness:
  "agrees (example_reply ''T2'' None) (snd (pendingResponses example_two_waiting ! 1)) \<and>
   promises example_two_waiting ! 1 = Pending \<and>
   promises (handleSocketModeRequest 3000 (example_reply ''T2'' None) example_two_waiting) ! 1 =
     Fulfilled '''' \<and>
   fst (ask_resume ''q_2000'' 1
     (handleSocketModeRequest 3000 (example_reply ''T2'' None) example_two_waiting)) =
     Some (Inr '''')"
proof -
  let ?q1 = "\<lparr>channel = ''C1'', user = ''U1'', threadTs = ''T1'', response = None, received = False\<rparr>"
  let ?q2 = "\<lparr>channel = ''C1'', user = ''U1'', threadTs = ''T2'', response = None, received = False\<rparr>"
  let ?e = "example_reply ''T2'' None"
  have 1: "ev_type ?e = ''message''" and 2: "\<not> isSelfOriginated ?e"
    and 5: "agrees ?e ?q2" and 9: "ev_text ?e = None \<or> ev_text ?e = Some ''''"
    by (simp_all add: example_reply_def isSelfOriginated_def truthy_def agrees_def)
  have 3: "pendingResponses example_two_waiting = [(''q_1000'', ?q1)] @ (''q_2000'', ?q2) # []"
    and 6: "responseResolvers example_two_waiting ''q_2000'' = Some 1"
    and 7: "1 < length (promises example_two_waiting)"
    and 8: "promises example_two_waiting ! 1 = Pending"
    by (simp_all add: example_two_waiting_eq)
  have 4: "\<forall>(k, q') \<in> set [(''q_1000'', ?q1)]. \<not> same_key ?q2 q'"
    by (simp add: same_key_def)
  show ?thesis
    using empty_text_reply_resolves_with_empty_string [OF 1 2 3 4 5 6 7 8 9, of 3000] 3 5 8
    by simp
qed

subsection \<open>Resolution happens once\<close>

text \<open>
  Claim C4, as the code has it. Once the promise of a call is settled, by the first
  agreeing event or by the timer, nothing that happens later changes it: the caller is woken
  once, and a call that resumes on a fulfilled promise returns the text that fulfilled it.
\<close>

theorem caller_woken_at_most_once:
  "p < length (promises w) \<and> promises w ! p \<noteq> Pending \<longrightarrow>
     p < length (promises (run as w)) \<and> promises (run as w) ! p = promises w ! p \<and>
     (\<forall>t. promises w ! p = Fulfilled t \<longrightarrow> fst (ask_resume qid p (run as w)) = Some (Inr t))"
proof (intro impI)
  assume "p < length (promises w) \<and> promises w ! p \<noteq> Pending"
  then have r: "p < length (promises (run as w))" "promises (run as w) ! p = promises w ! p"
    using run_settled [of p w as] by simp_all
  then show "p < length (promises (run as w)) \<and> promises (run as w) ! p = promises w ! p \<and>
     (\<forall>t. promises w ! p = Fulfilled t \<longrightarrow> fst (ask_resume qid p (run as w)) = Some (Inr t))"
    by (simp add: ask_resume_def)
qed

theorem caller_woken_at_most_once_witness:
  "promises example_resolved ! 0 = Fulfilled ''first'' \<and>
   promises (run [Event 2001 (example_reply ''T1'' (Some ''second'')), TimerFired ''q_1000'' 0] example_resolved) ! 0
      = Fulfilled ''first'' \<and>
   fst (ask_resume ''q_1000'' 0
     (run [Event 2001 (example_reply ''T1'' (Some ''second'')), TimerFired ''q_1000'' 0] example_resolved))
      = Some (Inr ''first'')"
proof -
  have h: "0 < length (promises example_resolved) \<and> promises example_resolved ! 0 \<noteq> Pending"
    and v: "promises example_resolved ! 0 = Fulfilled ''first''"
    by (simp_all add: example_resolved_eq)
  show ?thesis
    using h v caller_woken_at_most_once [of 0 example_resolved
        "[Event 2001 (example_reply ''T1'' (Some ''second'')), TimerFired ''q_1000'' 0]" "''q_1000''"]
    by simp
qed

text \<open>
  Claim C4 as stated fails: the field \<^verbatim>\<open>response\<close> of the record is written by every
  agreeing event that is handled while the record is in the store, since the loop does not
  read \<^verbatim>\<open>received\<close>. Two replies in the thread that are both handled before the call
  resumes (the second continuation of \<^verbatim>\<open>await ack()\<close> is queued before the resolver
  queues the continuation of \<^verbatim>\<open>ask\<close>) write it twice; the promise keeps the first text.
\<close>

theorem result_slot_written_twice:
  "map snd (pendingResponses example_waiting) =
     [\<lparr>channel = ''C1'', user = ''U1'', threadTs = ''T1'', response = None, received = False\<rparr>] \<and>
   map snd (pendingResponses example_resolved) =
     [\<lparr>channel = ''C1'', user = ''U1'', threadTs = ''T1'', response = Some ''first'', received = True\<rparr>] \<and>
   map snd (pendingResponses example_resolved_twice) =
     [\<lparr>channel = ''C1'', user = ''U1'', threadTs = ''T1'', response = Some ''second'', received = True\<rparr>] \<and>
   promises example_resolved_twice = [Fulfilled ''first'']"
  by (simp add: example_resolved_twice_def example_resolved_eq example_waiting_eq example_reply_def
       handleSocketModeRequest_def logMessage_def text_or_empty_def truthy_def settle_def Let_def)

subsection \<open>Timeout\<close>

text \<open>
  Claim C5. Let the timer of a waiting call fire: a resolver is registered under its
  identifier and its promise is pending. Then the call fails with \<open>Timeout\<close>, and its
  clean-up removes record and resolver in the same turn. Whatever events are handled
  afterwards, the promise stays rejected, so no text reaches the caller, and the store holds
  no record under the identifier that an event could write to.
\<close>

theorem late_reply_after_timeout_is_dropped:
  assumes "responseResolvers w qid \<noteq> None" and "p < length (promises w)"
    and "promises w ! p = Pending"
  shows "fst (ask_timeout qid p w) = Some (Inl Timeout) \<and>
         promises (run (events es) (snd (ask_timeout qid p w))) ! p = Rejected Timeout \<and>
         qid \<notin> fst ` set (pendingResponses (run (events es) (snd (ask_timeout qid p w)))) \<and>
         responseResolvers (run (events es) (snd (ask_timeout qid p w))) qid = None"
proof -
  note t = ask_timeout_fires [OF assms]
  have "promises (run (events es) (snd (ask_timeout qid p w))) ! p = Rejected Timeout"
    using run_settled [OF t(4), of "events es"] t(5) by simp
  moreover have "fst ` set (pendingResponses (run (events es) (snd (ask_timeout qid p w)))) =
      fst ` set (pendingResponses (snd (ask_timeout qid p w)))"
    using run_events_keys [of es "snd (ask_timeout qid p w)"] by (metis set_map)
  ultimately show ?thesis
    using t(1,2) run_events_no_resolver [OF t(3), of es] by simp
qed

theorem late_reply_after_timeout_is_dropped_witness:
  "responseResolvers example_waiting ''q_1000'' = Some 0 \<and>
   promises example_waiting = [Pending] \<and>
   fst (ask_timeout ''q_1000'' 0 example_waiting) = Some (Inl Timeout) \<and>
   promises (run (events [(61000, example_reply ''T1'' (Some ''too late''))])
      (snd (ask_timeout ''q_1000'' 0 example_waiting))) ! 0 = Rejected Timeout \<and>
   ''q_1000'' \<notin> fst ` set (pendingResponses (run (events [(61000, example_reply ''T1'' (Some ''too late''))])
      (snd (ask_timeout ''q_1000'' 0 example_waiting))))"
proof -
  have 1: "responseResolvers example_waiting ''q_1000'' \<noteq> None"
    and 2: "0 < length (promises example_waiting)" and 3: "promises example_waiting ! 0 = Pending"
    and r: "responseResolvers example_waiting ''q_1000'' = Some 0"
    and p: "promises example_waiting = [Pending]"
    by (simp_all add: example_waiting_eq)
  show ?thesis
    using late_reply_after_timeout_is_dropped [OF 1 2 3, of "[(61000, example_reply ''T1'' (Some ''too late''))]"] r p
    by simp
qed

subsection \<open>Order of send and insert\<close>

text \<open>
  Claim C1, as the code has it. \<^verbatim>\<open>ask\<close> sends first: the step that calls
  \<^verbatim>\<open>postMessage\<close> leaves store and resolvers as they were. The record is stored by the
  step that runs once the send has returned, with the returned \<^verbatim>\<open>ts\<close> as its
  \<^verbatim>\<open>threadTs\<close>, together with the resolver of a new pending promise; that step posts
  nothing.
\<close>

theorem send_precedes_insert:
  assumes "ready w"
  shows "fst (ask_begin now question w) = Inr (''q_'' @ string_of_nat now) \<and>
         posted (snd (ask_begin now question w)) =
           posted w @ [(channelId w, ''<@'' @ userId w @ ''> '' @ question)] \<and>
         pendingResponses (snd (ask_begin now question w)) = pendingResponses w \<and>
         responseResolvers (snd (ask_begin now question w)) = responseResolvers w \<and>
         map_of (pendingResponses (snd (ask_sent qid (PostOk ts) w'))) qid =
           Some \<lparr>channel = channelId w', user = userId w', threadTs = ts,
                 response = None, received = False\<rparr> \<and>
         responseResolvers (snd (ask_sent qid (PostOk ts) w')) qid = Some (length (promises w')) \<and>
         promises (snd (ask_sent qid (PostOk ts) w')) ! length (promises w') = Pending \<and>
         posted (snd (ask_sent qid (PostOk ts) w')) = posted w'"
  using assms
  by (simp add: ask_begin_def ask_sent_def Let_def AList.update_conv' del: string_of_nat.simps)

theorem send_precedes_insert_witness:
  "ready example_human \<and>
   fst (ask_begin 1000 ''What is the API key?'' example_human) = Inr ''q_1000'' \<and>
   pendingResponses (snd (ask_begin 1000 ''What is the API key?'' example_human)) = [] \<and>
   posted (snd (ask_begin 1000 ''What is the API key?'' example_human)) =
     [(''C1'', ''<@U1> What is the API key?'')]"
proof -
  have h: "ready example_human"
    by (simp add: ready_def example_human_def setHandler_def new_HumanInSlack_def)
  have v: "pendingResponses example_human = []" "posted example_human = []"
    "channelId example_human = ''C1''" "userId example_human = ''U1''"
    by (simp_all add: example_human_def setHandler_def new_HumanInSlack_def)
  show ?thesis
    using h v send_precedes_insert [OF h, of 1000 "''What is the API key?''"]
    by (simp add: digit_def)
qed

text \<open>
  Claim C1 as stated fails: after the send has been issued the store does not hold the
  record. A reply in the thread that is handled before \<^verbatim>\<open>postMessage\<close> returns finds
  an empty store and is dropped; the record is stored afterwards, and the call ends with
  \<open>Timeout\<close>.
\<close>

theorem reply_before_insert_is_lost:
  "fst (ask_begin 1000 ''What is the API key?'' example_human) = Inr ''q_1000'' \<and>
   posted race_sending = [(''C1'', ''<@U1> What is the API key?'')] \<and>
   pendingResponses race_sending = [] \<and>
   pendingResponses race_reply_handled = [] \<and>
   map snd (pendingResponses race_waiting) =
     [\<lparr>channel = ''C1'', user = ''U1'', threadTs = ''T1'', response = None, received = False\<rparr>] \<and>
   promises race_waiting = [Pending] \<and>
   fst (ask_timeout ''q_1000'' 0 race_waiting) = Some (Inl Timeout)"
  by (simp add: race_waiting_def race_reply_handled_def race_sending_eq example_human_def
        setHandler_def new_HumanInSlack_def ask_begin_def ready_def ask_sent_def ask_timeout_def
        timeout_callback_def ask_resume_def handleSocketModeRequest_def logMessage_def
        example_reply_def text_or_empty_def truthy_def settle_def Let_def digit_def)

subsection \<open>Question identifiers\<close>

text \<open>
  Claim C2 fails on the code: the identifier is \<^verbatim>\<open>q_\<close> followed by the reading of the
  clock in milliseconds, so two calls within one millisecond get the same identifier. The
  second call then replaces the record and the resolver of the first.
\<close>

theorem same_millisecond_same_identifier:
  "fst (ask_begin 1700000000000 ''first?'' example_human) = Inr ''q_1700000000000'' \<and>
   fst (ask_begin 1700000000000 ''second?'' collide_first_sending) = Inr ''q_1700000000000'' \<and>
   map (threadTs \<circ> snd) (pendingResponses collide_first_waiting) = [''T1''] \<and>
   map (threadTs \<circ> snd) (pendingResponses collide_both_waiting) = [''T2''] \<and>
   responseResolvers collide_first_waiting ''q_1700000000000'' = Some 0 \<and>
   responseResolvers collide_both_waiting ''q_1700000000000'' = Some 1"
  by (simp add: collide_both_waiting_eq collide_first_waiting_def collide_both_sending_eq
        collide_first_sending_def ask_begin_def ready_def ask_sent_def
        example_human_def setHandler_def new_HumanInSlack_def Let_def digit_def)

text \<open>
  Claim C6 fails on the code for the second of two such calls. The timer of the first call
  finds the resolver of the second under the shared identifier, removes it and rejects the
  first promise. The timer of the second call then finds no resolver and does nothing: the
  second promise stays pending under every later event, and the second call never resumes.
\<close>

theorem second_call_never_times_out:
  "fst (ask_timeout ''q_1700000000000'' 0 collide_both_waiting) = Some (Inl Timeout) \<and>
   timeout_callback ''q_1700000000000'' 1 collide_first_timed_out = collide_first_timed_out \<and>
   fst (ask_timeout ''q_1700000000000'' 1 collide_first_timed_out) = None \<and>
   promises (run (events es) collide_first_timed_out) ! 1 = Pending"
proof -
  have "\<forall>k. responseResolvers collide_first_timed_out k \<noteq> Some 1"
    by (simp add: collide_first_timed_out_eq)
  from run_events_unreferenced [OF this, of es]
  have "promises (run (events es) collide_first_timed_out) ! 1 = Pending"
    by (simp add: collide_first_timed_out_eq)
  moreover have "fst (ask_timeout ''q_1700000000000'' 0 collide_both_waiting) = Some (Inl Timeout)"
    by (simp add: collide_both_waiting_eq ask_timeout_def timeout_callback_def ask_resume_def settle_def)
  moreover have "timeout_callback ''q_1700000000000'' 1 collide_first_timed_out = collide_first_timed_out"
    by (simp add: collide_first_timed_out_eq timeout_callback_def)
  moreover have "fst (ask_timeout ''q_1700000000000'' 1 collide_first_timed_out) = None"
    by (simp add: collide_first_timed_out_eq ask_timeout_def timeout_callback_def ask_resume_def)
  ultimately show ?thesis by simp
qed

end
